theory Spec2Isabelle
  imports Main
begin

section \<open>The image listing of \<open>api/client/images.go\<close>\<close>

text \<open>
  \<open>CmdImages\<close> fetches the image records of the daemon and prints one row for every
  repository tag and every repository digest of every record. The embedding below follows
  the function from the point where its flags have been parsed. The packages it calls but
  does not contain (the reference parser, the identifier shortener, the clock and the
  formatters of durations and sizes, the filter parser and the listing client) are the
  fields of the record \<open>ext\<close>; the column writer is modelled in its own subsection.
\<close>

subsection \<open>Data\<close>

text \<open>A Go \<open>error\<close> value, identified by its message.\<close>

datatype error = Error string

text \<open>
  \<open>types.Image\<close>, with the fields the function reads. \<open>Created\<close> and \<open>Size\<close> are only
  handed to the formatters, so they are plain integers here.
\<close>

record Image =
  ID :: string
  RepoTags :: "string list"
  RepoDigests :: "string list"
  Created :: int
  Size :: int

text \<open>
  What the function observes of a \<open>reference.Named\<close> value: its \<open>Name()\<close>, and for each
  of the interfaces \<open>reference.Digested\<close> and \<open>reference.Tagged\<close> whether the value
  implements it, together with \<open>Digest().String()\<close> respectively \<open>Tag()\<close> if so.
  Nothing in the function excludes a value that implements both.
\<close>

record Named =
  Name :: string
  Digested :: "string option"
  Tagged :: "string option"

text \<open>\<open>types.ImageListOptions\<close>; \<open>'f\<close> is the type \<open>filters.Args\<close>.\<close>

record 'f ImageListOptions =
  MatchName :: string
  All_images :: bool
  Filters :: 'f

text \<open>
  The collaborators. \<open>HumanDuration_since k c\<close> is the text of
  \<open>units.HumanDuration(time.Now().UTC().Sub(time.Unix(c, 0)))\<close> at the \<open>k\<close>-th reading of
  the clock during the call, and \<open>HumanSize n\<close> the text of
  \<open>units.HumanSize(float64(n))\<close>.
\<close>

record 'f ext =
  ParseNamed :: "string \<Rightarrow> error + Named"
  TruncateID :: "string \<Rightarrow> string"
  HumanDuration_since :: "nat \<Rightarrow> int \<Rightarrow> string"
  HumanSize :: "int \<Rightarrow> string"
  NewArgs :: 'f
  ParseFlag :: "string \<Rightarrow> 'f \<Rightarrow> error + 'f"
  ImageList :: "'f ImageListOptions \<Rightarrow> error + Image list"

text \<open>The three variables \<open>repo\<close>, \<open>tag\<close> and \<open>digest\<close> of the inner loop.\<close>

record triple =
  repo :: string
  tag :: string
  digest :: string

subsection \<open>The column writer\<close>

text \<open>
  Modelled from the spec: the column-alignment writer \<open>text/tabwriter\<close> of the Go library
  and the stream \<open>cli.out\<close> behind it, neither of which is part of the source. The spec
  has the rows of a table appended to a buffer that reaches the user-visible stream when it
  is flushed, and the rows of quiet mode written through as they come. That is the
  behaviour of the Go writer, whose \<open>Write\<close> holds back every line of more than one cell
  (its layout may depend on later lines) and passes everything it holds on to the stream
  at the end of a line of a single cell, and whose \<open>Flush\<close> passes on what is held.

  A line is the list of its tab-separated cells; the padding of the columns is not
  modelled, and the text of a cell is taken to be free of tabs and line breaks.
  \<open>held\<close> is the text inside the writer, \<open>out\<close> the text that has reached \<open>cli.out\<close>
  during the call, and \<open>clock\<close> counts the readings of \<open>time.Now()\<close>.
\<close>

type_synonym line = "string list"

record state =
  held :: "line list"
  out :: "line list"
  clock :: nat

text \<open>
  Modelled from the spec: \<open>tabwriter.NewWriter(cli.out, 20, 1, 3, ' ', 0)\<close> and the stream
  at the start of the call; nothing is held and nothing has been written.
\<close>

definition NewWriter :: state where
  "NewWriter = \<lparr>held = [], out = [], clock = 0\<rparr>"

text \<open>
  Modelled from the spec: \<open>fmt.Fprintln\<close> or \<open>fmt.Fprintf\<close> of one line to the writer. A
  line of one cell goes to the stream at once, behind everything held; any other line is
  held.
\<close>

definition Fprint :: "line \<Rightarrow> state \<Rightarrow> state" where
  "Fprint l st =
     (if length l = 1 then st\<lparr>held := [], out := out st @ held st @ [l]\<rparr>
      else st\<lparr>held := held st @ [l]\<rparr>)"

text \<open>Modelled from the spec: \<open>w.Flush()\<close>; what is held goes to the stream.\<close>

definition Flush :: "state \<Rightarrow> state" where
  "Flush st = st\<lparr>held := [], out := out st @ held st\<rparr>"

text \<open>Every line written to the writer so far, in the order of writing.\<close>

definition written :: "state \<Rightarrow> line list" where
  "written st = out st @ held st"

subsection \<open>The function\<close>

text \<open>\<open>strings.HasPrefix(s, prefix)\<close>.\<close>

definition HasPrefix :: "string \<Rightarrow> string \<Rightarrow> bool" where
  "HasPrefix s p = (length p \<le> length s \<and> take (length p) s = p)"

text \<open>
  Lines 88 to 106: the three variables start at \<open><none>\<close>; a string that does not start
  with \<open><none>\<close> is parsed, an error of the parser is returned, and otherwise the name and,
  by the type switch, the digest or else the tag are stored.
\<close>

definition triple_of :: "'f ext \<Rightarrow> string \<Rightarrow> error + triple" where
  "triple_of x repoAndRef =
     (if \<not> HasPrefix repoAndRef ''<none>'' then
        (case ParseNamed x repoAndRef of
           Inl err \<Rightarrow> Inl err
         | Inr ref \<Rightarrow>
             (case Digested ref of
                Some d \<Rightarrow> Inr \<lparr>repo = Name ref, tag = ''<none>'', digest = d\<rparr>
              | None \<Rightarrow>
                  (case Tagged ref of
                     Some t \<Rightarrow> Inr \<lparr>repo = Name ref, tag = t, digest = ''<none>''\<rparr>
                   | None \<Rightarrow> Inr \<lparr>repo = Name ref, tag = ''<none>'', digest = ''<none>''\<rparr>)))
      else Inr \<lparr>repo = ''<none>'', tag = ''<none>'', digest = ''<none>''\<rparr>)"

text \<open>Lines 108 to 116: the row of one triple. Only a row of a table reads the clock.\<close>

definition print_row ::
  "'f ext \<Rightarrow> bool \<Rightarrow> bool \<Rightarrow> string \<Rightarrow> Image \<Rightarrow> triple \<Rightarrow> state \<Rightarrow> state" where
  "print_row x quiet showDigests ID' img t st =
     (if \<not> quiet then
        (if showDigests then
           Fprint [repo t, tag t, digest t, ID',
                   HumanDuration_since x (clock st) (Created img) @ '' ago'',
                   HumanSize x (Size img)]
             (st\<lparr>clock := Suc (clock st)\<rparr>)
         else
           Fprint [repo t, tag t, ID',
                   HumanDuration_since x (clock st) (Created img) @ '' ago'',
                   HumanSize x (Size img)]
             (st\<lparr>clock := Suc (clock st)\<rparr>))
      else Fprint [ID'] st)"

text \<open>
  Lines 87 to 117: the loop over the combined list. The result is the error returned from
  inside the loop, if any, and the state of the output at that moment.
\<close>

fun range_tagsAndDigests ::
  "'f ext \<Rightarrow> bool \<Rightarrow> bool \<Rightarrow> string \<Rightarrow> Image \<Rightarrow> string list \<Rightarrow> state \<Rightarrow> error option \<times> state" where
  "range_tagsAndDigests x quiet showDigests ID' img [] st = (None, st)"
| "range_tagsAndDigests x quiet showDigests ID' img (repoAndRef # rest) st =
     (case triple_of x repoAndRef of
        Inl err \<Rightarrow> (Some err, st)
      | Inr t \<Rightarrow>
          range_tagsAndDigests x quiet showDigests ID' img rest
            (print_row x quiet showDigests ID' img t st))"

text \<open>
  Lines 77 to 86: the digests of a dangling image are dropped, and the tags are followed
  by the digests.
\<close>

definition tagsAndDigests :: "Image \<Rightarrow> string list" where
  "tagsAndDigests img =
     (let repoTags = RepoTags img;
          repoDigests = RepoDigests img;
          repoDigests =
            (if length repoTags = 1 \<and> repoTags ! 0 = ''<none>:<none>'' \<and>
                length repoDigests = 1 \<and> repoDigests ! 0 = ''<none>@<none>''
             then [] else repoDigests)
      in repoTags @ repoDigests)"

text \<open>Lines 72 to 75: the identifier shown for a record.\<close>

definition shown_ID :: "'f ext \<Rightarrow> bool \<Rightarrow> Image \<Rightarrow> string" where
  "shown_ID x noTrunc img = (if \<not> noTrunc then TruncateID x (ID img) else ID img)"

text \<open>Lines 71 to 118: the loop over the records.\<close>

fun range_images ::
  "'f ext \<Rightarrow> bool \<Rightarrow> bool \<Rightarrow> bool \<Rightarrow> Image list \<Rightarrow> state \<Rightarrow> error option \<times> state" where
  "range_images x quiet noTrunc showDigests [] st = (None, st)"
| "range_images x quiet noTrunc showDigests (img # rest) st =
     (case range_tagsAndDigests x quiet showDigests (shown_ID x noTrunc img) img
             (tagsAndDigests img) st of
        (Some err, st') \<Rightarrow> (Some err, st')
      | (None, st') \<Rightarrow> range_images x quiet noTrunc showDigests rest st')"

text \<open>Lines 63 to 69: the header of the table.\<close>

definition header :: "bool \<Rightarrow> line" where
  "header showDigests =
     (if showDigests then [''REPOSITORY'', ''TAG'', ''DIGEST'', ''IMAGE ID'', ''CREATED'', ''SIZE'']
      else [''REPOSITORY'', ''TAG'', ''IMAGE ID'', ''CREATED'', ''SIZE''])"

text \<open>
  Lines 62 to 124: a fresh writer, the header unless quiet, the rows, and the flush unless
  quiet. An error from inside the loops returns before the flush.
\<close>

definition list_images ::
  "'f ext \<Rightarrow> bool \<Rightarrow> bool \<Rightarrow> bool \<Rightarrow> Image list \<Rightarrow> error option \<times> state" where
  "list_images x quiet noTrunc showDigests images =
     (let w = NewWriter;
          w = (if \<not> quiet then Fprint (header showDigests) w else w)
      in case range_images x quiet noTrunc showDigests images w of
           (Some err, w') \<Rightarrow> (Some err, w')
         | (None, w') \<Rightarrow> (None, if \<not> quiet then Flush w' else w'))"

text \<open>Lines 37 to 44: the filter flags are parsed one after the other.\<close>

fun range_flFilter :: "'f ext \<Rightarrow> string list \<Rightarrow> 'f \<Rightarrow> error + 'f" where
  "range_flFilter x [] imageFilterArgs = Inr imageFilterArgs"
| "range_flFilter x (f # rest) imageFilterArgs =
     (case ParseFlag x f imageFilterArgs of
        Inl err \<Rightarrow> Inl err
      | Inr imageFilterArgs' \<Rightarrow> range_flFilter x rest imageFilterArgs')"

text \<open>
  The function from line 35 on, given the values of its flags and its argument list
  (\<open>cmd.Require\<close> has limited it to one argument). An error of the filter parser or of
  the listing client returns before the writer exists.
\<close>

definition CmdImages ::
  "'f ext \<Rightarrow> bool \<Rightarrow> bool \<Rightarrow> bool \<Rightarrow> bool \<Rightarrow> string list \<Rightarrow> string list \<Rightarrow> error option \<times> state" where
  "CmdImages x quiet all noTrunc showDigests flFilter args =
     (case range_flFilter x flFilter (NewArgs x) of
        Inl err \<Rightarrow> (Some err, NewWriter)
      | Inr imageFilterArgs \<Rightarrow>
          (let matchName = (if length args = 1 then args ! 0 else [])
           in case ImageList x \<lparr>MatchName = matchName, All_images = all,
                                Filters = imageFilterArgs\<rparr> of
                Inl err \<Rightarrow> (Some err, NewWriter)
              | Inr images \<Rightarrow> list_images x quiet noTrunc showDigests images))"

subsection \<open>The records in memory\<close>

text \<open>
  In Go the two lists of a record are slices: a pointer into a backing array, a length and
  a capacity. Line 86 combines them with \<open>append\<close>, which writes behind the end of
  \<open>repoTags\<close> when the capacity allows it and copies to a fresh array otherwise. To see what
  that does to the records, the loop over the records is given a second time over an
  explicit store of backing arrays; it agrees with \<open>range_images\<close> on the records read from
  the store (lemma \<open>list_images_s_refines\<close>).
\<close>

type_synonym store = "string list list"

record slice =
  arr :: nat
  off :: nat
  len :: nat
  cap :: nat

definition elems :: "store \<Rightarrow> slice \<Rightarrow> string list" where
  "elems h s = take (len s) (drop (off s) (h ! arr s))"

text \<open>
  \<open>append(s, xs...)\<close>. The capacity of a fresh array is the choice of the runtime; the
  function never looks at it, and the model takes the least one.
\<close>

definition append_slice :: "store \<Rightarrow> slice \<Rightarrow> string list \<Rightarrow> store \<times> slice" where
  "append_slice h s xs =
     (if len s + length xs \<le> cap s then
        (h[arr s := take (off s + len s) (h ! arr s) @ xs @
                      drop (off s + len s + length xs) (h ! arr s)],
         s\<lparr>len := len s + length xs\<rparr>)
      else
        (h @ [elems h s @ xs],
         \<lparr>arr = length h, off = 0, len = len s + length xs, cap = len s + length xs\<rparr>))"

text \<open>\<open>types.Image\<close> as it lies in memory.\<close>

record Image_s =
  ID_s :: string
  RepoTags_s :: slice
  RepoDigests_s :: slice
  Created_s :: int
  Size_s :: int

definition load :: "store \<Rightarrow> Image_s \<Rightarrow> Image" where
  "load h img =
     \<lparr>ID = ID_s img, RepoTags = elems h (RepoTags_s img),
      RepoDigests = elems h (RepoDigests_s img), Created = Created_s img, Size = Size_s img\<rparr>"

text \<open>
  Lines 77 to 86 on the store: the two slice headers are copied, \<open>[]string{}\<close> is a new
  slice of length and capacity 0, and \<open>append\<close> reads the digests and writes them behind
  the tags.
\<close>

definition tagsAndDigests_s :: "store \<Rightarrow> Image_s \<Rightarrow> store \<times> slice" where
  "tagsAndDigests_s h img =
     (let repoTags = RepoTags_s img;
          repoDigests = RepoDigests_s img;
          (h, repoDigests) =
            (if len repoTags = 1 \<and> (h ! arr repoTags) ! (off repoTags + 0) = ''<none>:<none>'' \<and>
                len repoDigests = 1 \<and>
                (h ! arr repoDigests) ! (off repoDigests + 0) = ''<none>@<none>''
             then (h @ [[]], \<lparr>arr = length h, off = 0, len = 0, cap = 0\<rparr>)
             else (h, repoDigests))
      in append_slice h repoTags (elems h repoDigests))"

fun range_images_s ::
  "'f ext \<Rightarrow> bool \<Rightarrow> bool \<Rightarrow> bool \<Rightarrow> Image_s list \<Rightarrow> store \<Rightarrow> state \<Rightarrow>
     error option \<times> state \<times> store" where
  "range_images_s x quiet noTrunc showDigests [] h st = (None, st, h)"
| "range_images_s x quiet noTrunc showDigests (img # rest) h st =
     (case tagsAndDigests_s h img of
        (h', combined) \<Rightarrow>
          (case range_tagsAndDigests x quiet showDigests (shown_ID x noTrunc (load h' img))
                  (load h' img) (elems h' combined) st of
             (Some err, st') \<Rightarrow> (Some err, st', h')
           | (None, st') \<Rightarrow> range_images_s x quiet noTrunc showDigests rest h' st'))"

text \<open>Lines 62 to 124 on the store.\<close>

definition list_images_s ::
  "'f ext \<Rightarrow> bool \<Rightarrow> bool \<Rightarrow> bool \<Rightarrow> Image_s list \<Rightarrow> store \<Rightarrow> error option \<times> state \<times> store" where
  "list_images_s x quiet noTrunc showDigests images h =
     (let w = NewWriter;
          w = (if \<not> quiet then Fprint (header showDigests) w else w)
      in case range_images_s x quiet noTrunc showDigests images h w of
           (Some err, w', h') \<Rightarrow> (Some err, w', h')
         | (None, w', h') \<Rightarrow> (None, if \<not> quiet then Flush w' else w', h'))"

text \<open>
  A slice that lies inside an array of the store, and a slice \<open>t\<close> that is clear of the
  spare capacity behind the end of a slice \<open>s\<close>: it lies in another array, or it ends
  where \<open>s\<close> ends at the latest, or it starts behind the capacity of \<open>s\<close>.
\<close>

definition wf_slice :: "store \<Rightarrow> slice \<Rightarrow> bool" where
  "wf_slice h s = (arr s < length h \<and> off s + cap s \<le> length (h ! arr s) \<and> len s \<le> cap s)"

definition clear_of :: "slice \<Rightarrow> slice \<Rightarrow> bool" where
  "clear_of s t =
     (arr t \<noteq> arr s \<or> off t + len t \<le> off s + len s \<or> off s + cap s \<le> off t)"

definition slices :: "Image_s list \<Rightarrow> slice list" where
  "slices images = concat (map (\<lambda>img. [RepoTags_s img, RepoDigests_s img]) images)"

text \<open>
  Records whose lists all lie inside their arrays, none of them in the spare capacity
  behind the tag list of a record. Records that the decoder of the listing has allocated
  are of this kind, each list having an array of its own.
\<close>

definition separate :: "store \<Rightarrow> Image_s list \<Rightarrow> bool" where
  "separate h images =
     (list_all (wf_slice h) (slices images) \<and>
      list_all (\<lambda>img. list_all (clear_of (RepoTags_s img)) (slices images)) images)"

subsection \<open>Derived notions\<close>

text \<open>The test of line 80 as it reads the store.\<close>

definition dangling_pair :: "store \<Rightarrow> Image_s \<Rightarrow> bool" where
  "dangling_pair h img =
     (len (RepoTags_s img) = 1 \<and>
      (h ! arr (RepoTags_s img)) ! (off (RepoTags_s img) + 0) = ''<none>:<none>'' \<and>
      len (RepoDigests_s img) = 1 \<and>
      (h ! arr (RepoDigests_s img)) ! (off (RepoDigests_s img) + 0) = ''<none>@<none>'')"

text \<open>The rows of a list of triples of one record, written one after the other.\<close>

definition emit ::
  "'f ext \<Rightarrow> bool \<Rightarrow> bool \<Rightarrow> string \<Rightarrow> Image \<Rightarrow> triple list \<Rightarrow> state \<Rightarrow> state" where
  "emit x quiet showDigests ID' img ts st =
     foldl (\<lambda>st t. print_row x quiet showDigests ID' img t st) st ts"

text \<open>
  The two loops pass over the reference strings of all records in one sequence; \<open>jobs\<close> is
  that sequence, each string with its record, and \<open>run\<close> the single loop over it.
\<close>

definition jobs :: "Image list \<Rightarrow> (Image \<times> string) list" where
  "jobs images = concat (map (\<lambda>img. map (Pair img) (tagsAndDigests img)) images)"

fun run ::
  "'f ext \<Rightarrow> bool \<Rightarrow> bool \<Rightarrow> bool \<Rightarrow> (Image \<times> string) list \<Rightarrow> state \<Rightarrow> error option \<times> state" where
  "run x quiet noTrunc showDigests [] st = (None, st)"
| "run x quiet noTrunc showDigests ((img, repoAndRef) # rest) st =
     (case triple_of x repoAndRef of
        Inl err \<Rightarrow> (Some err, st)
      | Inr t \<Rightarrow>
          run x quiet noTrunc showDigests rest
            (print_row x quiet showDigests (shown_ID x noTrunc img) img t st))"

text \<open>
  The line of one triple, \<open>k\<close> being the reading of the clock, and the lines that \<open>run\<close>
  writes for a sequence of jobs: those of the strings before the first that fails.
\<close>

definition row :: "'f ext \<Rightarrow> bool \<Rightarrow> bool \<Rightarrow> string \<Rightarrow> Image \<Rightarrow> triple \<Rightarrow> nat \<Rightarrow> line" where
  "row x quiet showDigests ID' img t k =
     (if \<not> quiet then
        (if showDigests then
           [repo t, tag t, digest t, ID',
            HumanDuration_since x k (Created img) @ '' ago'', HumanSize x (Size img)]
         else
           [repo t, tag t, ID',
            HumanDuration_since x k (Created img) @ '' ago'', HumanSize x (Size img)])
      else [ID'])"

fun rows ::
  "'f ext \<Rightarrow> bool \<Rightarrow> bool \<Rightarrow> bool \<Rightarrow> (Image \<times> string) list \<Rightarrow> nat \<Rightarrow> line list" where
  "rows x quiet noTrunc showDigests [] k = []"
| "rows x quiet noTrunc showDigests ((img, repoAndRef) # rest) k =
     (case triple_of x repoAndRef of
        Inl err \<Rightarrow> []
      | Inr t \<Rightarrow>
          row x quiet showDigests (shown_ID x noTrunc img) img t k #
          rows x quiet noTrunc showDigests rest (if quiet then k else Suc k))"

text \<open>The writer as the loops find it: fresh, or with the header inside.\<close>

definition first_writer :: "bool \<Rightarrow> bool \<Rightarrow> state" where
  "first_writer quiet showDigests =
     (if \<not> quiet then Fprint (header showDigests) NewWriter else NewWriter)"

text \<open>The rows of quiet mode: the identifier of the record, once for each of its strings.\<close>

definition quiet_rows :: "'f ext \<Rightarrow> bool \<Rightarrow> Image list \<Rightarrow> line list" where
  "quiet_rows x noTrunc images = map (\<lambda>(img, s). [shown_ID x noTrunc img]) (jobs images)"

text \<open>A reference string that the loop can turn into a triple.\<close>

definition usable :: "'f ext \<Rightarrow> string \<Rightarrow> bool" where
  "usable x s = (HasPrefix s ''<none>'' \<or> (case ParseNamed x s of Inl err \<Rightarrow> False | Inr ref \<Rightarrow> True))"

subsection \<open>A sample of collaborators\<close>

text \<open>
  A parser that knows three references of one repository, the shortener of this version
  of the code (the first twelve characters), and constant texts for age and size. They
  serve to run the model on concrete records.
\<close>

definition sample_ParseNamed :: "string \<Rightarrow> error + Named" where
  "sample_ParseNamed s =
     (if s = ''busybox:latest'' then
        Inr \<lparr>Name = ''busybox'', Digested = None, Tagged = Some ''latest''\<rparr>
      else if s = ''busybox@sha256:ab'' then
        Inr \<lparr>Name = ''busybox'', Digested = Some ''sha256:ab'', Tagged = None\<rparr>
      else if s = ''busybox'' then
        Inr \<lparr>Name = ''busybox'', Digested = None, Tagged = None\<rparr>
      else Inl (Error ''invalid reference format''))"

definition sample_ext :: "unit ext" where
  "sample_ext =
     \<lparr>ParseNamed = sample_ParseNamed, TruncateID = take 12,
      HumanDuration_since = (\<lambda>k c. ''1 hour''), HumanSize = (\<lambda>n. ''1 MB''),
      NewArgs = (), ParseFlag = (\<lambda>f a. Inr a), ImageList = (\<lambda>opts. Inr [])\<rparr>"

definition sample_image :: "string list \<Rightarrow> string list \<Rightarrow> Image" where
  "sample_image tags digests =
     \<lparr>ID = ''0123456789abcdef'', RepoTags = tags, RepoDigests = digests,
      Created = 0, Size = 1048576\<rparr>"

text \<open>
  The same record in memory: its one tag in an array with room for a second string, its
  one digest in an array of its own.
\<close>

definition sample_image_s :: Image_s where
  "sample_image_s =
     \<lparr>ID_s = ''0123456789abcdef'',
      RepoTags_s = \<lparr>arr = 0, off = 0, len = 1, cap = 2\<rparr>,
      RepoDigests_s = \<lparr>arr = 1, off = 0, len = 1, cap = 1\<rparr>,
      Created_s = 0, Size_s = 1048576\<rparr>"

text \<open>
  A record whose two lists share one array: the tag at the front, with the capacity of
  the whole array, and the two digests at the end of it.
\<close>

definition sample_image_shared :: Image_s where
  "sample_image_shared =
     \<lparr>ID_s = ''0123456789abcdef'',
      RepoTags_s = \<lparr>arr = 0, off = 0, len = 1, cap = 4\<rparr>,
      RepoDigests_s = \<lparr>arr = 0, off = 2, len = 2, cap = 2\<rparr>,
      Created_s = 0, Size_s = 1048576\<rparr>"

section \<open>Properties of the listing\<close>


lemma written_Fprint: "written (Fprint l st) = written st @ [l]"
  by (simp add: written_def Fprint_def)

lemma written_clock: "written (st\<lparr>clock := k\<rparr>) = written st"
  by (simp add: written_def)

lemma length_written_print_row:
  "length (written (print_row x quiet sd i img t st)) = Suc (length (written st))"
  by (simp add: print_row_def written_Fprint written_clock)

lemma length_written_emit:
  "length (written (emit x quiet sd i img ts st)) = length (written st) + length ts"
  unfolding emit_def
  by (induction ts arbitrary: st) (simp_all add: length_written_print_row)

lemma tagsAndDigests_dangling:
  "RepoTags img = [''<none>:<none>''] \<Longrightarrow> RepoDigests img = [''<none>@<none>''] \<Longrightarrow>
   tagsAndDigests img = [''<none>:<none>'']"
  by (simp add: tagsAndDigests_def)

lemma tagsAndDigests_other:
  "\<not> (RepoTags img = [''<none>:<none>''] \<and> RepoDigests img = [''<none>@<none>'']) \<Longrightarrow>
   tagsAndDigests img = RepoTags img @ RepoDigests img"
  by (auto simp: tagsAndDigests_def Let_def length_Suc_conv)

lemma triple_of_none:
  "HasPrefix s ''<none>'' \<Longrightarrow>
   triple_of x s = Inr \<lparr>repo = ''<none>'', tag = ''<none>'', digest = ''<none>''\<rparr>"
  by (simp add: triple_of_def)

text \<open>
  Claim C1. For a record whose tag list is \<open>["<none>:<none>"]\<close> and whose digest list is
  \<open>["<none>@<none>"]\<close>, the digest list is dropped from the combined list, and the loop
  over the combined list returns no error and writes exactly one row, that of the triple
  whose three fields are \<open><none>\<close>.
\<close>

theorem dangling_once:
  assumes "RepoTags img = [''<none>:<none>'']" and "RepoDigests img = [''<none>@<none>'']"
  shows "tagsAndDigests img = [''<none>:<none>''] \<and>
         range_tagsAndDigests x quiet showDigests ID' img (tagsAndDigests img) st =
           (None, print_row x quiet showDigests ID' img
                    \<lparr>repo = ''<none>'', tag = ''<none>'', digest = ''<none>''\<rparr> st) \<and>
         length (written (print_row x quiet showDigests ID' img
                    \<lparr>repo = ''<none>'', tag = ''<none>'', digest = ''<none>''\<rparr> st)) =
           length (written st) + 1"
proof -
  have c: "tagsAndDigests img = [''<none>:<none>'']"
    using assms by (rule tagsAndDigests_dangling)
  have p: "HasPrefix ''<none>:<none>'' ''<none>''"
    by (simp add: HasPrefix_def)
  show ?thesis
    by (simp add: c triple_of_none [OF p] length_written_print_row)
qed

theorem dangling_once_witness:
  "tagsAndDigests (sample_image [''<none>:<none>''] [''<none>@<none>'']) = [''<none>:<none>''] \<and>
   range_tagsAndDigests sample_ext False True ''0123456789ab''
     (sample_image [''<none>:<none>''] [''<none>@<none>''])
     (tagsAndDigests (sample_image [''<none>:<none>''] [''<none>@<none>''])) NewWriter =
   (None, \<lparr>held = [[''<none>'', ''<none>'', ''<none>'', ''0123456789ab'', ''1 hour ago'', ''1 MB'']],
            out = [], clock = 1\<rparr>)"
proof -
  have t: "RepoTags (sample_image [''<none>:<none>''] [''<none>@<none>'']) = [''<none>:<none>'']"
    by (simp add: sample_image_def)
  have d: "RepoDigests (sample_image [''<none>:<none>''] [''<none>@<none>'']) = [''<none>@<none>'']"
    by (simp add: sample_image_def)
  show ?thesis
    using dangling_once [OF t d, of sample_ext False True "''0123456789ab''" NewWriter]
    by (simp add: print_row_def Fprint_def NewWriter_def sample_ext_def sample_image_def
        triple_of_def HasPrefix_def tagsAndDigests_def written_def)
qed


lemma print_row_row:
  "print_row x quiet sd i img t st =
     Fprint (row x quiet sd i img t (clock st)) (if quiet then st else st\<lparr>clock := Suc (clock st)\<rparr>)"
  by (simp add: print_row_def row_def)

lemma clock_Fprint: "clock (Fprint l st) = clock st"
  by (simp add: Fprint_def)

lemma clock_print_row:
  "clock (print_row x quiet sd i img t st) = (if quiet then clock st else Suc (clock st))"
  by (simp add: print_row_row clock_Fprint)

lemma written_print_row:
  "written (print_row x quiet sd i img t st) = written st @ [row x quiet sd i img t (clock st)]"
  by (simp add: print_row_row written_Fprint written_clock)

lemma range_tagsAndDigests_run:
  "range_tagsAndDigests x quiet sd (shown_ID x nt img) img strs st =
     run x quiet nt sd (map (Pair img) strs) st"
  by (induction strs arbitrary: st) (simp_all split: sum.splits)

lemma run_append:
  "run x quiet nt sd (js @ ks) st =
     (case run x quiet nt sd js st of
        (Some err, st') \<Rightarrow> (Some err, st')
      | (None, st') \<Rightarrow> run x quiet nt sd ks st')"
  by (induction js arbitrary: st) (auto split: sum.splits)

lemma range_images_run:
  "range_images x quiet nt sd images st = run x quiet nt sd (jobs images) st"
  by (induction images arbitrary: st)
     (simp_all add: jobs_def run_append range_tagsAndDigests_run split: prod.splits option.splits)

lemma range_images_append:
  "range_images x quiet nt sd (xs @ ys) st =
     (case range_images x quiet nt sd xs st of
        (Some err, st') \<Rightarrow> (Some err, st')
      | (None, st') \<Rightarrow> range_images x quiet nt sd ys st')"
  by (simp add: range_images_run jobs_def run_append split: prod.splits option.splits)

lemma written_run:
  "written (snd (run x quiet nt sd js st)) = written st @ rows x quiet nt sd js (clock st)"
  by (induction js arbitrary: st)
     (auto simp: written_print_row clock_print_row split: sum.splits)

lemma clock_run_quiet: "clock (snd (run x True nt sd js st)) = clock st"
  by (induction js arbitrary: st) (auto simp: clock_print_row split: sum.splits)

lemma held_run_quiet: "held st = [] \<Longrightarrow> held (snd (run x True nt sd js st)) = []"
  by (induction js arbitrary: st) (auto simp: print_row_def Fprint_def split: sum.splits)

lemma out_run_table: "out (snd (run x False nt sd js st)) = out st"
  by (induction js arbitrary: st) (auto simp: print_row_def Fprint_def split: sum.splits)


lemma written_Flush: "written (Flush st) = written st"
  by (simp add: written_def Flush_def)

lemma map_snd_jobs: "map snd (jobs images) = concat (map tagsAndDigests images)"
  by (induction images) (simp_all add: jobs_def comp_def)

lemma triple_of_usable: "usable x s \<longleftrightarrow> (\<exists>t. triple_of x s = Inr t)"
  by (auto simp: usable_def triple_of_def split: sum.splits option.splits)

lemma triple_of_unusable:
  "\<not> usable x s \<longleftrightarrow> \<not> HasPrefix s ''<none>'' \<and> (\<exists>err. ParseNamed x s = Inl err \<and> triple_of x s = Inl err)"
  by (auto simp: usable_def triple_of_def split: sum.splits option.splits)

lemma fst_run_None:
  "fst (run x quiet nt sd js st) = None \<longleftrightarrow> list_all (usable x) (map snd js)"
  by (induction js arbitrary: st) (auto simp: triple_of_usable split: sum.splits)

lemma run_first_failure:
  assumes "list_all (usable x) (map snd pre)" and "triple_of x s = Inl err"
  shows "run x quiet nt sd (pre @ (img, s) # post) st =
           (Some err, snd (run x quiet nt sd pre st))"
  using assms
  by (induction pre arbitrary: st) (auto simp: triple_of_usable split: sum.splits)

lemma length_rows_usable:
  "list_all (usable x) (map snd js) \<Longrightarrow> length (rows x quiet nt sd js k) = length js"
  by (induction js arbitrary: k) (auto simp: triple_of_usable split: sum.splits)

lemma rows_quiet_usable:
  "list_all (usable x) (map snd js) \<Longrightarrow>
   rows x True nt sd js k = map (\<lambda>(img, s). [shown_ID x nt img]) js"
  by (induction js arbitrary: k) (auto simp: triple_of_usable row_def split: sum.splits)

lemma rows_quiet_member:
  "l \<in> set (rows x True nt sd js k) \<Longrightarrow> \<exists>img\<in>fst ` set js. l = [shown_ID x nt img]"
  by (induction js arbitrary: k) (fastforce simp: row_def split: sum.splits)+

lemma fst_jobs: "fst ` set (jobs images) \<subseteq> set images"
  by (auto simp: jobs_def)

lemma rows_quiet_showDigests:
  "rows x True nt sd js k = rows x True nt sd' js k"
  by (induction js arbitrary: k) (auto simp: row_def split: sum.splits)

lemma run_quiet_showDigests:
  "run x True nt sd js st = run x True nt sd' js st"
  by (induction js arbitrary: st) (auto simp: print_row_def split: sum.splits)

lemma list_images_run:
  "list_images x quiet nt sd images =
     (case run x quiet nt sd (jobs images) (first_writer quiet sd) of
        (Some err, w') \<Rightarrow> (Some err, w')
      | (None, w') \<Rightarrow> (None, if \<not> quiet then Flush w' else w'))"
  by (simp add: list_images_def first_writer_def range_images_run Let_def)

lemma fst_list_images:
  "fst (list_images x quiet nt sd images) = fst (run x quiet nt sd (jobs images) (first_writer quiet sd))"
  by (simp add: list_images_run split: prod.splits option.splits)

lemma CmdImages_listing:
  assumes "range_flFilter x flFilter (NewArgs x) = Inr a"
    and "ImageList x \<lparr>MatchName = (if length args = 1 then args ! 0 else []),
                        All_images = all, Filters = a\<rparr> = Inr images"
  shows "CmdImages x quiet all noTrunc showDigests flFilter args =
           list_images x quiet noTrunc showDigests images"
  using assms by (simp add: CmdImages_def)

lemma written_list_images:
  "written (snd (list_images x quiet nt sd images)) =
     (if quiet then [] else [header sd]) @ rows x quiet nt sd (jobs images) 0"
proof -
  have w: "written (first_writer quiet sd) = (if quiet then [] else [header sd])"
    by (simp add: first_writer_def written_Fprint) (simp add: written_def NewWriter_def)
  have c: "clock (first_writer quiet sd) = 0"
    by (simp add: first_writer_def clock_Fprint NewWriter_def)
  have "written (snd (list_images x quiet nt sd images)) =
          written (snd (run x quiet nt sd (jobs images) (first_writer quiet sd)))"
    by (simp add: list_images_run written_Flush split: prod.splits option.splits)
  then show ?thesis
    by (simp only: written_run w c)
qed


lemma range_tagsAndDigests_usable:
  "list_all (usable x) strs \<Longrightarrow>
   \<exists>ts. map Inr ts = map (triple_of x) strs \<and>
        range_tagsAndDigests x quiet sd i img strs st = (None, emit x quiet sd i img ts st)"
proof (induction strs arbitrary: st)
  case Nil
  then show ?case by (simp add: emit_def)
next
  case (Cons s strs)
  from Cons.prems obtain t where t: "triple_of x s = Inr t"
    by (auto simp: triple_of_usable)
  from Cons.prems have "list_all (usable x) strs" by simp
  from Cons.IH [OF this, of "print_row x quiet sd i img t st"]
  obtain ts where ts: "map Inr ts = map (triple_of x) strs"
    and r: "range_tagsAndDigests x quiet sd i img strs (print_row x quiet sd i img t st) =
              (None, emit x quiet sd i img ts (print_row x quiet sd i img t st))"
    by blast
  have "map Inr (t # ts) = map (triple_of x) (s # strs)"
    using t ts by simp
  moreover have "range_tagsAndDigests x quiet sd i img (s # strs) st =
                   (None, emit x quiet sd i img (t # ts) st)"
    using t r by (simp add: emit_def)
  ultimately show ?case by blast
qed

text \<open>
  Claim C2. A record that is not the dangling pair, with \<open>N\<close> tag strings and \<open>M\<close> digest
  strings that all start with \<open><none>\<close> or parse, gives \<open>N + M\<close> triples: the loop returns
  no error and has written the rows of a list \<open>ts\<close> of \<open>N + M\<close> triples, the \<open>i\<close>-th of
  which is the triple of the \<open>i\<close>-th string of the tags followed by the digests, so that
  tags come before digests and each list keeps its order. The records themselves are
  processed one after the other in the order of the input.
\<close>

theorem tags_then_digests:
  assumes "\<not> (RepoTags img = [''<none>:<none>''] \<and> RepoDigests img = [''<none>@<none>''])"
    and "list_all (usable x) (RepoTags img @ RepoDigests img)"
  shows "(\<exists>ts. length ts = length (RepoTags img) + length (RepoDigests img) \<and>
            map Inr ts = map (triple_of x) (RepoTags img @ RepoDigests img) \<and>
            range_tagsAndDigests x quiet showDigests ID' img (tagsAndDigests img) st =
              (None, emit x quiet showDigests ID' img ts st) \<and>
            length (written (emit x quiet showDigests ID' img ts st)) =
              length (written st) + length (RepoTags img) + length (RepoDigests img)) \<and>
         range_images x quiet noTrunc showDigests (before @ after) st =
           (case range_images x quiet noTrunc showDigests before st of
              (Some err, st') \<Rightarrow> (Some err, st')
            | (None, st') \<Rightarrow> range_images x quiet noTrunc showDigests after st')"
proof -
  have c: "tagsAndDigests img = RepoTags img @ RepoDigests img"
    using assms(1) by (rule tagsAndDigests_other)
  from range_tagsAndDigests_usable [OF assms(2), of quiet showDigests ID' img st]
  obtain ts where ts: "map Inr ts = map (triple_of x) (RepoTags img @ RepoDigests img)"
    and r: "range_tagsAndDigests x quiet showDigests ID' img (RepoTags img @ RepoDigests img) st =
              (None, emit x quiet showDigests ID' img ts st)"
    by blast
  from ts have "length (map Inr ts :: (error + triple) list) =
                  length (map (triple_of x) (RepoTags img @ RepoDigests img))"
    by simp
  then have l: "length ts = length (RepoTags img) + length (RepoDigests img)"
    by simp
  have "length (written (emit x quiet showDigests ID' img ts st)) =
          length (written st) + length (RepoTags img) + length (RepoDigests img)"
    by (simp add: length_written_emit l)
  with ts r l c show ?thesis
    by (simp only: range_images_append) blast
qed

theorem tags_then_digests_witness:
  "range_tagsAndDigests sample_ext False True ''0123456789ab''
     (sample_image [''busybox:latest'', ''<none>:<none>''] [''busybox@sha256:ab''])
     (tagsAndDigests (sample_image [''busybox:latest'', ''<none>:<none>''] [''busybox@sha256:ab'']))
     NewWriter =
   (None, \<lparr>held = [[''busybox'', ''latest'', ''<none>'', ''0123456789ab'', ''1 hour ago'', ''1 MB''],
                    [''<none>'', ''<none>'', ''<none>'', ''0123456789ab'', ''1 hour ago'', ''1 MB''],
                    [''busybox'', ''<none>'', ''sha256:ab'', ''0123456789ab'', ''1 hour ago'', ''1 MB'']],
            out = [], clock = 3\<rparr>)"
proof -
  let ?img = "sample_image [''busybox:latest'', ''<none>:<none>''] [''busybox@sha256:ab'']"
  have n: "\<not> (RepoTags ?img = [''<none>:<none>''] \<and> RepoDigests ?img = [''<none>@<none>''])"
    by (simp add: sample_image_def)
  have u: "list_all (usable sample_ext) (RepoTags ?img @ RepoDigests ?img)"
    by (simp add: sample_image_def usable_def HasPrefix_def sample_ext_def sample_ParseNamed_def)
  from tags_then_digests [OF n u, of False True "''0123456789ab''" NewWriter False "[]" "[]"]
  obtain ts where "length ts = length (RepoTags ?img) + length (RepoDigests ?img)"
    and "map Inr ts = map (triple_of sample_ext) (RepoTags ?img @ RepoDigests ?img)"
    and r: "range_tagsAndDigests sample_ext False True ''0123456789ab'' ?img (tagsAndDigests ?img)
              NewWriter = (None, emit sample_ext False True ''0123456789ab'' ?img ts NewWriter)"
    by blast
  then have "ts = [\<lparr>repo = ''busybox'', tag = ''latest'', digest = ''<none>''\<rparr>,
                   \<lparr>repo = ''<none>'', tag = ''<none>'', digest = ''<none>''\<rparr>,
                   \<lparr>repo = ''busybox'', tag = ''<none>'', digest = ''sha256:ab''\<rparr>]"
    by (auto simp: sample_image_def triple_of_def HasPrefix_def sample_ext_def
        sample_ParseNamed_def map_eq_Cons_conv)
  with r show ?thesis
    by (simp add: emit_def print_row_def Fprint_def NewWriter_def sample_ext_def sample_image_def)
qed


text \<open>
  Claim C7. A reference string that starts with \<open><none>\<close>, whatever follows the prefix,
  gives the triple whose three fields are \<open><none>\<close>, and the loop goes on with the row of
  that triple. The parser has no part in it: the result is the same for every parser
  \<open>p\<close> put in the place of \<open>ParseNamed\<close>, also one that fails on the string.
\<close>

theorem none_prefix_all_none:
  assumes "HasPrefix s ''<none>''"
  shows "triple_of (x\<lparr>ParseNamed := p\<rparr>) s =
           Inr \<lparr>repo = ''<none>'', tag = ''<none>'', digest = ''<none>''\<rparr> \<and>
         range_tagsAndDigests (x\<lparr>ParseNamed := p\<rparr>) quiet showDigests ID' img (s # rest) st =
           range_tagsAndDigests (x\<lparr>ParseNamed := p\<rparr>) quiet showDigests ID' img rest
             (print_row (x\<lparr>ParseNamed := p\<rparr>) quiet showDigests ID' img
                \<lparr>repo = ''<none>'', tag = ''<none>'', digest = ''<none>''\<rparr> st)"
  using assms by (simp add: triple_of_none)

theorem none_prefix_all_none_witness:
  "HasPrefix ''<none>/busybox:latest'' ''<none>'' \<and>
   triple_of (sample_ext\<lparr>ParseNamed := \<lambda>s. Inl (Error ''unreachable'')\<rparr>) ''<none>/busybox:latest'' =
     Inr \<lparr>repo = ''<none>'', tag = ''<none>'', digest = ''<none>''\<rparr>"
proof -
  have h: "HasPrefix ''<none>/busybox:latest'' ''<none>''"
    by (simp add: HasPrefix_def)
  from none_prefix_all_none [OF h, where x = sample_ext and p = "\<lambda>s. Inl (Error ''unreachable'')"] h
  show ?thesis by blast
qed

text \<open>
  Claim C10. A reference string that does not start with \<open><none>\<close> and parses to a named
  reference that is neither digested nor tagged gives the triple with the parsed name as
  repository and \<open><none>\<close> as tag and as digest.
\<close>

theorem bare_name_triple:
  assumes "\<not> HasPrefix s ''<none>''" and "ParseNamed x s = Inr ref"
    and "Digested ref = None" and "Tagged ref = None"
  shows "triple_of x s = Inr \<lparr>repo = Name ref, tag = ''<none>'', digest = ''<none>''\<rparr>"
  using assms by (simp add: triple_of_def)

theorem bare_name_triple_witness:
  "triple_of sample_ext ''busybox'' =
     Inr \<lparr>repo = ''busybox'', tag = ''<none>'', digest = ''<none>''\<rparr>"
proof -
  have a: "\<not> HasPrefix ''busybox'' ''<none>''"
    by (simp add: HasPrefix_def)
  have b: "ParseNamed sample_ext ''busybox'' =
             Inr \<lparr>Name = ''busybox'', Digested = None, Tagged = None\<rparr>"
    by (simp add: sample_ext_def sample_ParseNamed_def)
  from bare_name_triple [OF a b] show ?thesis by simp
qed

lemma triple_of_one_field:
  "triple_of x s = Inr t \<Longrightarrow> tag t = ''<none>'' \<or> digest t = ''<none>''"
  by (auto simp: triple_of_def split: if_splits sum.splits option.splits)

lemma rows_table_one_field:
  "l \<in> set (rows x False nt True js k) \<Longrightarrow> l ! 1 = ''<none>'' \<or> l ! 2 = ''<none>''"
proof (induction js arbitrary: k)
  case Nil
  then show ?case by simp
next
  case (Cons j js)
  obtain img s where j: "j = (img, s)" by (cases j)
  show ?case
  proof (cases "triple_of x s")
    case (Inl err)
    with Cons.prems j show ?thesis by simp
  next
    case (Inr t)
    with Cons.prems j have "l = row x False True (shown_ID x nt img) img t k \<or>
                            l \<in> set (rows x False nt True js (Suc k))"
      by simp
    then show ?thesis
    proof
      assume "l = row x False True (shown_ID x nt img) img t k"
      with triple_of_one_field [OF Inr] show ?thesis by (auto simp: row_def)
    next
      assume "l \<in> set (rows x False nt True js (Suc k))"
      then show ?thesis by (rule Cons.IH)
    qed
  qed
qed

text \<open>
  Claim C4. In every triple the loop computes, the tag or the digest is \<open><none>\<close>. A
  reference that is tagged (and not digested) gives its tag and the digest \<open><none>\<close>; a
  reference that is digested gives its digest and the tag \<open><none>\<close>, the type switch
  testing for a digest first. Hence in every row of a table with the digest column, the
  tag cell or the digest cell is \<open><none>\<close>.
\<close>

theorem tag_or_digest_none:
  "(\<forall>t. triple_of x s = Inr t \<longrightarrow> tag t = ''<none>'' \<or> digest t = ''<none>'') \<and>
   (\<forall>ref t. \<not> HasPrefix s ''<none>'' \<and> ParseNamed x s = Inr ref \<and>
             Digested ref = None \<and> Tagged ref = Some t \<longrightarrow>
      triple_of x s = Inr \<lparr>repo = Name ref, tag = t, digest = ''<none>''\<rparr>) \<and>
   (\<forall>ref d. \<not> HasPrefix s ''<none>'' \<and> ParseNamed x s = Inr ref \<and> Digested ref = Some d \<longrightarrow>
      triple_of x s = Inr \<lparr>repo = Name ref, tag = ''<none>'', digest = d\<rparr>) \<and>
   (\<forall>l \<in> set (written (snd (list_images x False noTrunc True images))).
      l = header True \<or> l ! 1 = ''<none>'' \<or> l ! 2 = ''<none>'')"
proof (intro conjI)
  show "\<forall>t. triple_of x s = Inr t \<longrightarrow> tag t = ''<none>'' \<or> digest t = ''<none>''"
    by (blast dest: triple_of_one_field)
  show "\<forall>ref t. \<not> HasPrefix s ''<none>'' \<and> ParseNamed x s = Inr ref \<and>
             Digested ref = None \<and> Tagged ref = Some t \<longrightarrow>
      triple_of x s = Inr \<lparr>repo = Name ref, tag = t, digest = ''<none>''\<rparr>"
    by (simp add: triple_of_def)
  show "\<forall>ref d. \<not> HasPrefix s ''<none>'' \<and> ParseNamed x s = Inr ref \<and> Digested ref = Some d \<longrightarrow>
      triple_of x s = Inr \<lparr>repo = Name ref, tag = ''<none>'', digest = d\<rparr>"
    by (simp add: triple_of_def)
  show "\<forall>l \<in> set (written (snd (list_images x False noTrunc True images))).
      l = header True \<or> l ! 1 = ''<none>'' \<or> l ! 2 = ''<none>''"
    by (auto simp: written_list_images dest: rows_table_one_field)
qed

theorem tag_or_digest_none_witness:
  "triple_of sample_ext ''busybox:latest'' =
     Inr \<lparr>repo = ''busybox'', tag = ''latest'', digest = ''<none>''\<rparr> \<and>
   triple_of sample_ext ''busybox@sha256:ab'' =
     Inr \<lparr>repo = ''busybox'', tag = ''<none>'', digest = ''sha256:ab''\<rparr>"
proof -
  have a: "\<not> HasPrefix ''busybox:latest'' ''<none>''" "\<not> HasPrefix ''busybox@sha256:ab'' ''<none>''"
    by (simp_all add: HasPrefix_def)
  have b: "ParseNamed sample_ext ''busybox:latest'' =
             Inr \<lparr>Name = ''busybox'', Digested = None, Tagged = Some ''latest''\<rparr>"
    by (simp add: sample_ext_def sample_ParseNamed_def)
  have c: "ParseNamed sample_ext ''busybox@sha256:ab'' =
             Inr \<lparr>Name = ''busybox'', Digested = Some ''sha256:ab'', Tagged = None\<rparr>"
    by (simp add: sample_ext_def sample_ParseNamed_def)
  from tag_or_digest_none [of sample_ext "''busybox:latest''" False "[]"] a(1) b
  have "triple_of sample_ext ''busybox:latest'' =
          Inr \<lparr>repo = ''busybox'', tag = ''latest'', digest = ''<none>''\<rparr>"
    by simp
  moreover from tag_or_digest_none [of sample_ext "''busybox@sha256:ab''" False "[]"] a(2) c
  have "triple_of sample_ext ''busybox@sha256:ab'' =
          Inr \<lparr>repo = ''busybox'', tag = ''<none>'', digest = ''sha256:ab''\<rparr>"
    by simp
  ultimately show ?thesis by simp
qed


lemmas eval_defs =
  list_images_def NewWriter_def Fprint_def Flush_def header_def print_row_def triple_of_def
  HasPrefix_def tagsAndDigests_def shown_ID_def sample_ext_def sample_ParseNamed_def
  sample_image_def written_def quiet_rows_def jobs_def usable_def

lemma held_first_writer_quiet: "held (first_writer True sd) = []"
  by (simp add: first_writer_def NewWriter_def)

lemma out_first_writer: "out (first_writer quiet sd) = []"
  by (simp add: first_writer_def NewWriter_def Fprint_def header_def)

lemma clock_first_writer: "clock (first_writer quiet sd) = 0"
  by (simp add: first_writer_def NewWriter_def clock_Fprint)

lemma out_run_quiet:
  "out (snd (run x True nt sd js (first_writer True sd'))) = rows x True nt sd js 0"
proof -
  let ?st = "snd (run x True nt sd js (first_writer True sd'))"
  have "held ?st = []"
    by (rule held_run_quiet) (rule held_first_writer_quiet)
  then have "out ?st = written ?st"
    by (simp add: written_def)
  also have "\<dots> = rows x True nt sd js 0"
    by (simp add: written_run clock_first_writer)
       (simp add: written_def first_writer_def NewWriter_def)
  finally show ?thesis .
qed

text \<open>
  Claim C5. In quiet mode, when the call returns without error, nothing is left inside
  the writer and every row has reached the output stream, although the function does not
  flush: the stream holds the identifier of each record once for each of its reference
  strings, in order.
\<close>

theorem quiet_rows_visible:
  assumes "fst (list_images x True noTrunc showDigests images) = None"
  shows "held (snd (list_images x True noTrunc showDigests images)) = [] \<and>
         out (snd (list_images x True noTrunc showDigests images)) = quiet_rows x noTrunc images"
proof -
  let ?r = "run x True noTrunc showDigests (jobs images) (first_writer True showDigests)"
  have s: "snd (list_images x True noTrunc showDigests images) = snd ?r"
    by (simp add: list_images_run split: prod.splits option.splits)
  from assms have u: "list_all (usable x) (map snd (jobs images))"
    by (simp only: fst_list_images fst_run_None)
  have "held (snd ?r) = []"
    by (rule held_run_quiet) (rule held_first_writer_quiet)
  moreover have "out (snd ?r) = quiet_rows x noTrunc images"
    by (simp only: out_run_quiet rows_quiet_usable [OF u] quiet_rows_def)
  ultimately show ?thesis
    by (simp only: s)
qed

theorem quiet_rows_visible_witness:
  "list_images sample_ext True False True
     [sample_image [''busybox:latest''] [''busybox@sha256:ab''],
      sample_image [''<none>:<none>''] [''<none>@<none>'']] =
   (None, \<lparr>held = [], out = [[''0123456789ab''], [''0123456789ab''], [''0123456789ab'']],
            clock = 0\<rparr>)"
proof -
  let ?images = "[sample_image [''busybox:latest''] [''busybox@sha256:ab''],
                  sample_image [''<none>:<none>''] [''<none>@<none>'']]"
  have n: "fst (list_images sample_ext True False True ?images) = None"
    by (simp add: eval_defs)
  from quiet_rows_visible [OF n] show ?thesis
    by (simp add: eval_defs)
qed

text \<open>
  Claim C6. In quiet mode every line written consists of one cell, the identifier of one
  of the records, shortened unless \<open>noTrunc\<close> is set; and the whole result of the listing
  is the same whatever the value of \<open>showDigests\<close>.
\<close>

theorem quiet_one_token:
  "(\<forall>l \<in> set (written (snd (list_images x True noTrunc showDigests images))).
      length l = 1 \<and> (\<exists>img \<in> set images. l = [shown_ID x noTrunc img])) \<and>
   list_images x True noTrunc showDigests images = list_images x True noTrunc showDigests' images"
proof
  show "\<forall>l \<in> set (written (snd (list_images x True noTrunc showDigests images))).
      length l = 1 \<and> (\<exists>img \<in> set images. l = [shown_ID x noTrunc img])"
  proof
    fix l
    assume "l \<in> set (written (snd (list_images x True noTrunc showDigests images)))"
    then have "l \<in> set (rows x True noTrunc showDigests (jobs images) 0)"
      by (simp add: written_list_images)
    from rows_quiet_member [OF this] fst_jobs [of images]
    obtain img where "img \<in> set images" and "l = [shown_ID x noTrunc img]"
      by blast
    then show "length l = 1 \<and> (\<exists>img \<in> set images. l = [shown_ID x noTrunc img])"
      by auto
  qed
  have "first_writer True showDigests = first_writer True showDigests'"
    by (simp add: first_writer_def)
  then show "list_images x True noTrunc showDigests images =
        list_images x True noTrunc showDigests' images"
    by (simp add: list_images_run run_quiet_showDigests [of x noTrunc showDigests _ _ showDigests'])
qed

theorem quiet_one_token_witness:
  "written (snd (list_images sample_ext True True True
     [sample_image [''busybox:latest'', ''busybox''] [''busybox@sha256:ab'']])) =
   [[''0123456789abcdef''], [''0123456789abcdef''], [''0123456789abcdef'']] \<and>
   list_images sample_ext True True True
     [sample_image [''busybox:latest'', ''busybox''] [''busybox@sha256:ab'']] =
   list_images sample_ext True True False
     [sample_image [''busybox:latest'', ''busybox''] [''busybox@sha256:ab'']]"
  using quiet_one_token [of sample_ext True True
      "[sample_image [''busybox:latest'', ''busybox''] [''busybox@sha256:ab'']]" False]
  by (simp add: eval_defs)


lemma ago_not_CREATED: "a @ '' ago'' \<noteq> ''CREATED''"
proof
  assume "a @ '' ago'' = ''CREATED''"
  then have "last (a @ '' ago'') = last ''CREATED''"
    by (rule arg_cong)
  then show False by simp
qed

lemma row_not_header: "row x quiet sd i img t k \<noteq> header sd"
  by (simp add: row_def header_def ago_not_CREATED)

lemma rows_not_header: "header sd \<notin> set (rows x quiet nt sd js k)"
proof (induction js arbitrary: k)
  case Nil
  show ?case by simp
next
  case (Cons j js)
  obtain img s where j: "j = (img, s)" by (cases j)
  show ?case
    using Cons.IH row_not_header [of x quiet sd "shown_ID x nt img" img, symmetric]
    by (auto simp: j split: sum.splits)
qed

text \<open>
  Claim C8. Among the lines written by a listing the header occurs once if \<open>quiet\<close> is
  false and not at all if it is true; when it occurs it is the first line. With
  \<open>showDigests\<close> it has the six cells REPOSITORY, TAG, DIGEST, IMAGE ID, CREATED and
  SIZE, and otherwise the five cells REPOSITORY, TAG, IMAGE ID, CREATED and SIZE.
\<close>

theorem header_once:
  "count_list (written (snd (list_images x quiet noTrunc showDigests images)))
     (header showDigests) = (if quiet then 0 else 1) \<and>
   (\<not> quiet \<longrightarrow>
      take 1 (written (snd (list_images x quiet noTrunc showDigests images))) =
        [header showDigests]) \<and>
   header True = [''REPOSITORY'', ''TAG'', ''DIGEST'', ''IMAGE ID'', ''CREATED'', ''SIZE''] \<and>
   header False = [''REPOSITORY'', ''TAG'', ''IMAGE ID'', ''CREATED'', ''SIZE'']"
proof -
  have "count_list (rows x quiet noTrunc showDigests (jobs images) 0) (header showDigests) = 0"
    using rows_not_header by (rule count_notin)
  then show ?thesis
    by (simp add: written_list_images) (simp add: header_def)
qed

theorem header_once_witness:
  "written (snd (list_images sample_ext False False False
     [sample_image [''busybox:latest''] []])) =
   [[''REPOSITORY'', ''TAG'', ''IMAGE ID'', ''CREATED'', ''SIZE''],
    [''busybox'', ''latest'', ''0123456789ab'', ''1 hour ago'', ''1 MB'']] \<and>
   count_list (written (snd (list_images sample_ext False False False
     [sample_image [''busybox:latest''] []]))) (header False) = 1"
  using header_once [of sample_ext False False False "[sample_image [''busybox:latest''] []]"]
  by (simp add: eval_defs)

lemma in_jobs: "img \<in> set images \<Longrightarrow> s \<in> set (tagsAndDigests img) \<Longrightarrow> (img, s) \<in> set (jobs images)"
  by (auto simp: jobs_def)

lemma out_run_table_first: "out (snd (run x False nt sd js (first_writer False sd'))) = []"
  by (simp add: out_run_table out_first_writer)

text \<open>
  Claim C3, amended. If a reference string of a record (of its combined list) does not
  start with \<open><none>\<close> and fails to parse, the listing returns the error that the parser
  gave for the first such string \<open>bad\<close>, and it has written the rows of the strings
  \<open>pre\<close> before that one and nothing after them. When \<open>quiet\<close> is false none of it has
  reached the output stream, neither header nor row. When \<open>quiet\<close> is true the rows of
  the strings before \<open>bad\<close> have reached it.
\<close>

theorem parse_failure:
  assumes "img \<in> set images" and "s \<in> set (tagsAndDigests img)"
    and "\<not> HasPrefix s ''<none>''" and "ParseNamed x s = Inl e"
  shows "\<exists>pre bad post err.
           concat (map tagsAndDigests images) = pre @ bad # post \<and>
           list_all (usable x) pre \<and>
           \<not> HasPrefix bad ''<none>'' \<and> ParseNamed x bad = Inl err \<and>
           fst (list_images x quiet noTrunc showDigests images) = Some err \<and>
           (\<not> quiet \<longrightarrow> out (snd (list_images x quiet noTrunc showDigests images)) = []) \<and>
           (quiet \<longrightarrow> out (snd (list_images x quiet noTrunc showDigests images)) =
                         take (length pre) (quiet_rows x noTrunc images)) \<and>
           length (written (snd (list_images x quiet noTrunc showDigests images))) =
             (if quiet then 0 else 1) + length pre"
proof -
  have "\<not> usable x s"
    using assms(3,4) by (simp add: usable_def)
  with in_jobs [OF assms(1,2)] have "\<exists>j \<in> set (jobs images). \<not> usable x (snd j)"
    by force
  from split_list_first_prop [OF this]
  obtain pj j post where js: "jobs images = pj @ j # post"
    and bad: "\<not> usable x (snd j)" and pre: "\<forall>p \<in> set pj. \<not> \<not> usable x (snd p)"
    by blast
  obtain img' b where j: "j = (img', b)" by (cases j)
  from bad j obtain err where nb: "\<not> HasPrefix b ''<none>''"
    and pe: "ParseNamed x b = Inl err" and te: "triple_of x b = Inl err"
    by (auto simp: triple_of_unusable)
  from pre have u: "list_all (usable x) (map snd pj)"
    by (simp add: list_all_iff)
  let ?w = "first_writer quiet showDigests"
  let ?L = "list_images x quiet noTrunc showDigests images"
  have r: "run x quiet noTrunc showDigests (jobs images) ?w =
             (Some err, snd (run x quiet noTrunc showDigests pj ?w))"
    unfolding js j by (rule run_first_failure [OF u te])
  then have L: "?L = (Some err, snd (run x quiet noTrunc showDigests pj ?w))"
    by (simp add: list_images_run)
  have c: "concat (map tagsAndDigests images) = map snd pj @ b # map snd post"
    using js j by (simp add: map_snd_jobs [symmetric])
  have o1: "\<not> quiet \<longrightarrow> out (snd ?L) = []"
    by (simp only: L snd_conv) (simp add: out_run_table_first)
  have "quiet_rows x noTrunc images =
          map (\<lambda>(img, s). [shown_ID x noTrunc img]) pj @
          map (\<lambda>(img, s). [shown_ID x noTrunc img]) (j # post)"
    by (simp add: quiet_rows_def js)
  then have "take (length pj) (quiet_rows x noTrunc images) =
          map (\<lambda>(img, s). [shown_ID x noTrunc img]) pj"
    by simp
  then have o2: "quiet \<longrightarrow> out (snd ?L) = take (length (map snd pj)) (quiet_rows x noTrunc images)"
    by (simp only: L snd_conv) (simp add: out_run_quiet rows_quiet_usable [OF u])
  have "written (snd ?L) = written ?w @ rows x quiet noTrunc showDigests pj 0"
    by (simp add: L written_run clock_first_writer)
  moreover have "length (written ?w) = (if quiet then 0 else 1)"
    by (simp add: first_writer_def written_Fprint) (simp add: written_def NewWriter_def)
  ultimately have w: "length (written (snd ?L)) = (if quiet then 0 else 1) + length (map snd pj)"
    by (simp add: length_rows_usable [OF u])
  have f: "fst ?L = Some err"
    by (simp add: L)
  from c u nb pe f o1 o2 w show ?thesis
    by blast
qed

theorem parse_failure_witness:
  "list_images sample_ext False False False
     [sample_image [''busybox:latest'', '':latest''] []] =
   (Some (Error ''invalid reference format''),
    \<lparr>held = [[''REPOSITORY'', ''TAG'', ''IMAGE ID'', ''CREATED'', ''SIZE''],
             [''busybox'', ''latest'', ''0123456789ab'', ''1 hour ago'', ''1 MB'']],
     out = [], clock = 1\<rparr>)"
proof -
  let ?img = "sample_image [''busybox:latest'', '':latest''] []"
  have a: "?img \<in> set [?img]" by simp
  have b: "'':latest'' \<in> set (tagsAndDigests ?img)"
    by (simp add: tagsAndDigests_def sample_image_def)
  have c: "\<not> HasPrefix '':latest'' ''<none>''"
    by (simp add: HasPrefix_def)
  have d: "ParseNamed sample_ext '':latest'' = Inl (Error ''invalid reference format'')"
    by (simp add: sample_ext_def sample_ParseNamed_def)
  from parse_failure [OF a b c d, of False False False] show ?thesis
    by (simp add: eval_defs)
qed

text \<open>
  Claim C3 as stated fails in quiet mode: the second tag of the record below has no
  repository and does not parse, the listing returns the error, and yet the row of the
  first tag has reached the output stream.
\<close>

theorem parse_failure_quiet_counterexample:
  "list_images sample_ext True False False
     [sample_image [''busybox:latest'', '':latest''] []] =
   (Some (Error ''invalid reference format''),
    \<lparr>held = [], out = [[''0123456789ab'']], clock = 0\<rparr>)"
  by (simp add: eval_defs)

section \<open>Properties of the records in memory\<close>


lemma length_elems: "wf_slice h s \<Longrightarrow> length (elems h s) = len s"
  by (auto simp: elems_def wf_slice_def)

lemma append_slice_elems:
  assumes "wf_slice h s"
  shows "elems (fst (append_slice h s xs)) (snd (append_slice h s xs)) = elems h s @ xs"
proof (cases "len s + length xs \<le> cap s")
  case True
  let ?a = "h ! arr s"
  from assms True have b: "off s + len s + length xs \<le> length ?a" and a: "arr s < length h"
    by (simp_all add: wf_slice_def)
  have "drop (off s) (take (off s + len s) ?a @ xs @ drop (off s + len s + length xs) ?a) =
          take (len s) (drop (off s) ?a) @ xs @ drop (off s + len s + length xs) ?a"
    using b by (simp add: drop_take)
  moreover have "length (take (len s) (drop (off s) ?a)) = len s"
    using b by simp
  ultimately show ?thesis
    using True a by (simp add: append_slice_def elems_def)
next
  case False
  then show ?thesis
    using assms by (simp add: append_slice_def elems_def wf_slice_def)
qed

lemma splice_before:
  assumes "p \<le> length a" and "i + k \<le> p"
  shows "take k (drop i (take p a @ ys)) = take k (drop i a)"
proof -
  from assms have "drop i (take p a @ ys) = drop i (take p a) @ ys"
    by simp
  moreover from assms have "k \<le> length (drop i (take p a))"
    by simp
  ultimately have "take k (drop i (take p a @ ys)) = take k (drop i (take p a))"
    by simp
  also have "\<dots> = take k (take (p - i) (drop i a))"
    by (simp add: drop_take)
  also from assms have "\<dots> = take k (drop i a)"
    by (simp add: min_def)
  finally show ?thesis .
qed

lemma splice_after:
  assumes "p + length xs \<le> i" and "p \<le> length a"
  shows "drop i (take p a @ xs @ drop (p + length xs) a) = drop i a"
proof -
  from assms have "drop i (take p a @ xs @ drop (p + length xs) a) =
                     drop (i - p - length xs) (drop (p + length xs) a)"
    by simp
  also from assms have "\<dots> = drop i a"
    by simp
  finally show ?thesis .
qed

lemma append_slice_frame:
  assumes "wf_slice h t" and "wf_slice h s" and "clear_of s t"
  shows "elems (fst (append_slice h s xs)) t = elems h t \<and> wf_slice (fst (append_slice h s xs)) t"
proof (cases "len s + length xs \<le> cap s")
  case True
  let ?a = "h ! arr s"
  let ?p = "off s + len s"
  let ?a' = "take ?p ?a @ xs @ drop (?p + length xs) ?a"
  from assms(2) True have b: "?p + length xs \<le> length ?a" and a: "arr s < length h"
    by (simp_all add: wf_slice_def)
  have h': "fst (append_slice h s xs) = h[arr s := ?a']"
    using True by (simp add: append_slice_def)
  from b have la: "length ?a' = length ?a"
    by simp
  show ?thesis
  proof (cases "arr t = arr s")
    case False
    with assms(1) show ?thesis
      by (simp add: h' elems_def wf_slice_def)
  next
    case same: True
    from assms(1) la a same have w: "wf_slice (h[arr s := ?a']) t"
      by (simp add: wf_slice_def)
    from assms(3) same have "off t + len t \<le> ?p \<or> off s + cap s \<le> off t"
      by (simp add: clear_of_def)
    then have "take (len t) (drop (off t) ?a') = take (len t) (drop (off t) ?a)"
    proof
      assume "off t + len t \<le> ?p"
      with b show ?thesis
        by (intro splice_before) simp_all
    next
      assume "off s + cap s \<le> off t"
      with True have "?p + length xs \<le> off t" by simp
      with b have "drop (off t) ?a' = drop (off t) ?a"
        by (intro splice_after) simp_all
      then show ?thesis by simp
    qed
    with a same have "elems (h[arr s := ?a']) t = elems h t"
      by (simp add: elems_def)
    with w show ?thesis
      by (simp add: h')
  qed
next
  case False
  then show ?thesis
    using assms(1) by (simp add: append_slice_def elems_def wf_slice_def nth_append)
qed

lemma store_extend:
  assumes "wf_slice h t"
  shows "elems (h @ [a]) t = elems h t \<and> wf_slice (h @ [a]) t"
  using assms by (simp add: elems_def wf_slice_def nth_append)

lemma elems_first:
  assumes "wf_slice h s" and "len s = 1"
  shows "elems h s ! 0 = (h ! arr s) ! (off s + 0)"
  using assms by (simp add: elems_def wf_slice_def)

lemma dangling_s:
  assumes "wf_slice h rt" and "wf_slice h rd"
  shows "(len rt = 1 \<and> (h ! arr rt) ! (off rt + 0) = A \<and>
          len rd = 1 \<and> (h ! arr rd) ! (off rd + 0) = B) \<longleftrightarrow>
         (length (elems h rt) = 1 \<and> elems h rt ! 0 = A \<and>
          length (elems h rd) = 1 \<and> elems h rd ! 0 = B)"
  using elems_first [OF assms(1)] elems_first [OF assms(2)]
  by (auto simp: length_elems [OF assms(1)] length_elems [OF assms(2)])

lemma tagsAndDigests_s_cases:
  "tagsAndDigests_s h img =
     (if dangling_pair h img
      then append_slice (h @ [[]]) (RepoTags_s img)
             (elems (h @ [[]]) \<lparr>arr = length h, off = 0, len = 0, cap = 0\<rparr>)
      else append_slice h (RepoTags_s img) (elems h (RepoDigests_s img)))"
  by (simp add: tagsAndDigests_s_def dangling_pair_def Let_def)

lemma elems_empty_slice: "elems h' \<lparr>arr = a, off = 0, len = 0, cap = 0\<rparr> = []"
  by (simp add: elems_def)

lemma tagsAndDigests_s_frame:
  assumes "wf_slice h t" and "wf_slice h (RepoTags_s img)" and "clear_of (RepoTags_s img) t"
  shows "elems (fst (tagsAndDigests_s h img)) t = elems h t \<and>
         wf_slice (fst (tagsAndDigests_s h img)) t"
proof (cases "dangling_pair h img")
  case True
  from store_extend [OF assms(1), of "[]"]
  have e: "elems (h @ [[]]) t = elems h t" and w: "wf_slice (h @ [[]]) t"
    by simp_all
  from store_extend [OF assms(2), of "[]"]
  have ws: "wf_slice (h @ [[]]) (RepoTags_s img)"
    by simp
  from append_slice_frame [OF w ws assms(3), of "[]"] e True show ?thesis
    by (simp add: tagsAndDigests_s_cases elems_empty_slice)
next
  case False
  from append_slice_frame [OF assms, of "elems h (RepoDigests_s img)"] False
  show ?thesis
    by (simp add: tagsAndDigests_s_cases)
qed

lemma dangling_pair_load:
  assumes "wf_slice h (RepoTags_s img)" and "wf_slice h (RepoDigests_s img)"
  shows "tagsAndDigests (load h img) =
           (if dangling_pair h img then elems h (RepoTags_s img)
            else elems h (RepoTags_s img) @ elems h (RepoDigests_s img))"
proof -
  have "dangling_pair h img \<longleftrightarrow>
          length (RepoTags (load h img)) = 1 \<and> RepoTags (load h img) ! 0 = ''<none>:<none>'' \<and>
          length (RepoDigests (load h img)) = 1 \<and> RepoDigests (load h img) ! 0 = ''<none>@<none>''"
    unfolding dangling_pair_def load_def Image.simps
    by (rule dangling_s [OF assms])
  then show ?thesis
    by (cases "dangling_pair h img") (auto simp: tagsAndDigests_def Let_def load_def)
qed

lemma tagsAndDigests_s_refines:
  assumes "wf_slice h (RepoTags_s img)" and "wf_slice h (RepoDigests_s img)"
  shows "elems (fst (tagsAndDigests_s h img)) (snd (tagsAndDigests_s h img)) =
           tagsAndDigests (load h img)"
proof (cases "dangling_pair h img")
  case True
  from store_extend [OF assms(1), of "[]"]
  have e: "elems (h @ [[]]) (RepoTags_s img) = elems h (RepoTags_s img)"
    and w: "wf_slice (h @ [[]]) (RepoTags_s img)"
    by simp_all
  from append_slice_elems [OF w, of "[]"] e True show ?thesis
    by (simp add: tagsAndDigests_s_cases elems_empty_slice dangling_pair_load [OF assms])
next
  case False
  with append_slice_elems [OF assms(1), of "elems h (RepoDigests_s img)"] show ?thesis
    by (simp add: tagsAndDigests_s_cases dangling_pair_load [OF assms])
qed


lemma load_cong:
  "elems h' (RepoTags_s img) = elems h (RepoTags_s img) \<Longrightarrow>
   elems h' (RepoDigests_s img) = elems h (RepoDigests_s img) \<Longrightarrow> load h' img = load h img"
  by (simp add: load_def)

lemma range_images_s_inv:
  assumes "\<forall>t \<in> S. wf_slice h t"
    and "\<forall>img \<in> set imgs. RepoTags_s img \<in> S \<and> RepoDigests_s img \<in> S \<and>
           (\<forall>t \<in> S. clear_of (RepoTags_s img) t)"
    and "range_images_s x quiet nt sd imgs h st = (e, st', h')"
  shows "(\<forall>t \<in> S. elems h' t = elems h t \<and> wf_slice h' t) \<and>
         range_images x quiet nt sd (map (load h) imgs) st = (e, st')"
  using assms
proof (induction imgs arbitrary: h st)
  case Nil
  then show ?case by simp
next
  case (Cons img rest)
  obtain h1 c where hc: "tagsAndDigests_s h img = (h1, c)"
    by (cases "tagsAndDigests_s h img")
  from Cons.prems(2) have tS: "RepoTags_s img \<in> S" and dS: "RepoDigests_s img \<in> S"
    and sep: "\<forall>t \<in> S. clear_of (RepoTags_s img) t"
    by simp_all
  have frame: "\<forall>t \<in> S. elems h1 t = elems h t \<and> wf_slice h1 t"
  proof
    fix t assume t: "t \<in> S"
    with Cons.prems(1) sep tS have "wf_slice h t" and "wf_slice h (RepoTags_s img)"
      and "clear_of (RepoTags_s img) t"
      by blast+
    from tagsAndDigests_s_frame [OF this] hc
    show "elems h1 t = elems h t \<and> wf_slice h1 t" by simp
  qed
  from frame tS dS have l: "load h1 img = load h img"
    by (blast intro: load_cong)
  from Cons.prems(1) tS dS have "wf_slice h (RepoTags_s img)" and "wf_slice h (RepoDigests_s img)"
    by blast+
  from tagsAndDigests_s_refines [OF this] hc
  have c: "elems h1 c = tagsAndDigests (load h img)"
    by simp
  let ?inner = "range_tagsAndDigests x quiet sd (shown_ID x nt (load h img)) (load h img)
                  (tagsAndDigests (load h img)) st"
  obtain e1 st1 where inner: "?inner = (e1, st1)"
    by (cases ?inner)
  show ?case
  proof (cases e1)
    case (Some err)
    with Cons.prems(3) hc l c inner have "e = Some err" and "st' = st1" and "h' = h1"
      by simp_all
    with frame inner Some show ?thesis by simp
  next
    case None
    with Cons.prems(3) hc l c inner
    have r: "range_images_s x quiet nt sd rest h1 st1 = (e, st', h')"
      by simp
    from frame have w1: "\<forall>t \<in> S. wf_slice h1 t" by blast
    from Cons.prems(2)
    have o1: "\<forall>img \<in> set rest. RepoTags_s img \<in> S \<and> RepoDigests_s img \<in> S \<and>
                (\<forall>t \<in> S. clear_of (RepoTags_s img) t)"
      by simp
    from Cons.IH [OF w1 o1 r]
    have f2: "\<forall>t \<in> S. elems h' t = elems h1 t \<and> wf_slice h' t"
      and p: "range_images x quiet nt sd (map (load h1) rest) st1 = (e, st')"
      by blast+
    from frame o1 have "\<forall>img \<in> set rest. load h1 img = load h img"
      by (blast intro: load_cong)
    then have "map (load h1) rest = map (load h) rest"
      by simp
    with p inner None have "range_images x quiet nt sd (map (load h) (img # rest)) st = (e, st')"
      by simp
    moreover from frame f2 have "\<forall>t \<in> S. elems h' t = elems h t \<and> wf_slice h' t"
      by simp
    ultimately show ?thesis by blast
  qed
qed

lemma separate_own:
  assumes "separate h images"
  shows "(\<forall>t \<in> set (slices images). wf_slice h t) \<and>
         (\<forall>img \<in> set images. RepoTags_s img \<in> set (slices images) \<and>
            RepoDigests_s img \<in> set (slices images) \<and>
            (\<forall>t \<in> set (slices images). clear_of (RepoTags_s img) t))"
proof -
  from assms have w: "\<forall>t \<in> set (slices images). wf_slice h t"
    and c: "\<forall>img \<in> set images. \<forall>t \<in> set (slices images). clear_of (RepoTags_s img) t"
    by (simp_all add: separate_def list_all_iff)
  have m: "\<forall>img \<in> set images. RepoTags_s img \<in> set (slices images) \<and>
             RepoDigests_s img \<in> set (slices images)"
    by (auto simp: slices_def)
  with w c show ?thesis by blast
qed

lemma range_images_s_separate:
  assumes "separate h images"
    and "range_images_s x quiet nt sd images h st = (e, st', h')"
  shows "(\<forall>img \<in> set images. load h' img = load h img) \<and>
         range_images x quiet nt sd (map (load h) images) st = (e, st')"
proof -
  from separate_own [OF assms(1)]
  have w: "\<forall>t \<in> set (slices images). wf_slice h t"
    and o: "\<forall>img \<in> set images. RepoTags_s img \<in> set (slices images) \<and>
            RepoDigests_s img \<in> set (slices images) \<and>
            (\<forall>t \<in> set (slices images). clear_of (RepoTags_s img) t)"
    by blast+
  from range_images_s_inv [OF w o assms(2)]
  have f: "\<forall>t \<in> set (slices images). elems h' t = elems h t \<and> wf_slice h' t"
    and p: "range_images x quiet nt sd (map (load h) images) st = (e, st')"
    by blast+
  from f o have "\<forall>img \<in> set images. load h' img = load h img"
    by (blast intro: load_cong)
  with p show ?thesis by blast
qed

lemma list_images_s_refines:
  assumes "separate h images"
  shows "list_images x quiet nt sd (map (load h) images) =
           (fst (list_images_s x quiet nt sd images h),
            fst (snd (list_images_s x quiet nt sd images h)))"
proof -
  let ?w = "if \<not> quiet then Fprint (header sd) NewWriter else NewWriter"
  obtain e st' h' where r: "range_images_s x quiet nt sd images h ?w = (e, st', h')"
    by (cases "range_images_s x quiet nt sd images h ?w")
  from range_images_s_separate [OF assms r]
  have "range_images x quiet nt sd (map (load h) images) ?w = (e, st')"
    by blast
  with r show ?thesis
    by (cases e) (simp_all add: list_images_def list_images_s_def Let_def)
qed


text \<open>
  Claim C9, amended. The listing leaves every record as it was, provided that every list
  of the records lies inside its backing array and that no list of a record lies in the
  spare capacity behind the tag list of a record: read from the store after the call, the
  identifier, the tag list, the digest list, the creation time and the size of each
  record are what they were before, whether the call ends with an error or not. The
  function keeps no copy of the lists, and \<open>append\<close> writes the digests into that spare
  capacity when it is large enough. The tag list of the record whose lists are combined is
  unchanged by the combining in any store in which that list lies inside its array.
\<close>

theorem records_unchanged:
  assumes "separate h images"
    and "list_images_s x quiet noTrunc showDigests images h = (err, w, h')"
  shows "(\<forall>img \<in> set images. load h' img = load h img) \<and>
         (wf_slice g (RepoTags_s r) \<longrightarrow>
            elems (fst (tagsAndDigests_s g r)) (RepoTags_s r) = elems g (RepoTags_s r))"
proof
  let ?w = "if \<not> quiet then Fprint (header showDigests) NewWriter else NewWriter"
  obtain e st1 h1 where r: "range_images_s x quiet noTrunc showDigests images h ?w = (e, st1, h1)"
    by (cases "range_images_s x quiet noTrunc showDigests images h ?w")
  with assms(2) have "h' = h1"
    by (cases e) (simp_all add: list_images_s_def Let_def)
  with range_images_s_separate [OF assms(1) r]
  show "\<forall>img \<in> set images. load h' img = load h img"
    by blast
  have "clear_of (RepoTags_s r) (RepoTags_s r)"
    by (simp add: clear_of_def)
  with tagsAndDigests_s_frame [of g "RepoTags_s r" r]
  show "wf_slice g (RepoTags_s r) \<longrightarrow>
          elems (fst (tagsAndDigests_s g r)) (RepoTags_s r) = elems g (RepoTags_s r)"
    by blast
qed

theorem records_unchanged_witness:
  "list_images_s sample_ext True False False [sample_image_s]
     [[''busybox:latest'', ''spare''], [''busybox@sha256:ab'']] =
   (None, \<lparr>held = [], out = [[''0123456789ab''], [''0123456789ab'']], clock = 0\<rparr>,
    [[''busybox:latest'', ''busybox@sha256:ab''], [''busybox@sha256:ab'']]) \<and>
   load [[''busybox:latest'', ''busybox@sha256:ab''], [''busybox@sha256:ab'']] sample_image_s =
   load [[''busybox:latest'', ''spare''], [''busybox@sha256:ab'']] sample_image_s"
proof -
  let ?h = "[[''busybox:latest'', ''spare''], [''busybox@sha256:ab'']]"
  let ?h' = "[[''busybox:latest'', ''busybox@sha256:ab''], [''busybox@sha256:ab'']]"
  have s: "separate ?h [sample_image_s]"
    by (simp add: separate_def slices_def wf_slice_def clear_of_def sample_image_s_def)
  have l: "list_images_s sample_ext True False False [sample_image_s] ?h =
             (None, \<lparr>held = [], out = [[''0123456789ab''], [''0123456789ab'']], clock = 0\<rparr>, ?h')"
    by (simp add: list_images_s_def tagsAndDigests_s_def append_slice_def elems_def load_def
        sample_image_s_def eval_defs)
  from records_unchanged [OF s l] have "load ?h' sample_image_s = load ?h sample_image_s"
    by simp
  with l show ?thesis
    by simp
qed

text \<open>
  Claim C9 as stated fails for a record whose digest list lies in the spare capacity
  behind its tag list: the one array of the store below holds the tag, a free place and
  the two digests, the tag list has the capacity of the whole array, and after the
  listing the digest list of the record reads differently.
\<close>

theorem records_shared_array_counterexample:
  "list_images_s sample_ext True False False [sample_image_shared]
     [[''busybox:latest'', ''spare'', ''busybox@sha256:ab'', ''busybox'']] =
   (None,
    \<lparr>held = [], out = [[''0123456789ab''], [''0123456789ab''], [''0123456789ab'']], clock = 0\<rparr>,
    [[''busybox:latest'', ''busybox@sha256:ab'', ''busybox'', ''busybox'']]) \<and>
   RepoDigests (load [[''busybox:latest'', ''spare'', ''busybox@sha256:ab'', ''busybox'']]
                  sample_image_shared) = [''busybox@sha256:ab'', ''busybox''] \<and>
   RepoDigests (load [[''busybox:latest'', ''busybox@sha256:ab'', ''busybox'', ''busybox'']]
                  sample_image_shared) = [''busybox'', ''busybox'']"
  by (simp add: list_images_s_def tagsAndDigests_s_def append_slice_def elems_def load_def
      sample_image_shared_def eval_defs)

end
